theory Spec2Isabelle
  imports Main
begin

section \<open>Data model of the SSE route\<close>

text \<open>
  The route handler \<^verbatim>\<open>GET\<close> of the SSE endpoint runs on a JavaScript event loop.
  Every callback of the source (the continuation after an \<^verbatim>\<open>await\<close>, the interval
  callback, the stream listeners, the abort listener) runs to completion, so the
  embedding is a step function on an explicit state: one step is one callback, fired by
  one input of the environment. A thrown JavaScript value is the \<open>Inl\<close> of a sum.
\<close>

text \<open>
  An event is the pair handed to \<^verbatim>\<open>sendEvent\<close>: its name and the fields of its data
  object. A field holds null, a string, a payload of the upstream service (opaque here)
  or the clock reading that \<^verbatim>\<open>new Date().toISOString()\<close> prints.
\<close>

datatype jvalue = JNull | JString string | JUpstream string | JTimestamp nat

datatype event = Event (name: string) (payload: "(string \<times> jvalue) list")

text \<open>What a \<^verbatim>\<open>catch\<close> receives: an \<^verbatim>\<open>Error\<close> with its message, or any other value.\<close>

datatype thrown = ErrorObj string | NonError

text \<open>How a request of \<^verbatim>\<open>daytonaClient.get\<close> settles.\<close>

datatype fetch_result = Resolved string | Rejected thrown

text \<open>
  The two poll functions, and the continuations that can wait for an upstream request:
  \<^verbatim>\<open>handleEventStream\<close> inside \<^verbatim>\<open>streamCommandLogs\<close>, \<^verbatim>\<open>handleEventStream\<close> inside the
  initial poll of a poll driver, and a poll called by the interval.
\<close>

datatype poll = PollStatus | PollSessions

datatype task = LogsRequest | InitialPoll poll | TickPoll poll

text \<open>
  The only value ever assigned to \<^verbatim>\<open>cleanupFunction\<close> is the closure
  \<^verbatim>\<open>() => clearInterval(interval)\<close> of the one interval of the channel.
\<close>

datatype cleanup = ClearInterval

datatype interval_state = NoInterval | Running poll | Cleared

text \<open>The upstream log stream, as its listeners see it.\<close>

datatype upstream_state = NoStream | Flowing | Ended | Failed

text \<open>The four query parameters as \<^verbatim>\<open>searchParams.get\<close> returns them.\<close>

record request =
  sandboxId :: "string option"
  sessionId :: "string option"
  commandId :: "string option"
  eventType :: "string option"

text \<open>
  The state of one channel: the request captured by the closures, the clock, the events
  enqueued on the controller so far, whether the controller is closed, whether the
  request's signal has fired \<^verbatim>\<open>abort\<close>, the variable \<^verbatim>\<open>cleanupFunction\<close>, the interval,
  the upstream requests in flight with the continuation waiting for each, the upstream
  stream, and the values thrown out of a callback that nobody caught.
\<close>

record state =
  req :: request
  now :: nat
  emitted :: "event list"
  closed :: bool
  aborted :: bool
  cleanupFunction :: "cleanup option"
  interval :: interval_state
  pending :: "(nat \<times> task) list"
  next_id :: nat
  upstream :: upstream_state
  faults :: "thrown list"

datatype response = PlainResponse nat string | StreamResponse state | Thrown thrown

text \<open>
  The inputs of the environment: time passes (the clock only moves forward), the
  upstream request with the given number settles, the interval timer fires, the client
  disconnects, the upstream stream delivers a chunk (given as \<^verbatim>\<open>chunk.toString()\<close>), ends,
  or fails with a message.
\<close>

datatype input =
    Elapse nat
  | FetchSettles nat fetch_result
  | IntervalFires
  | Abort
  | Chunk string
  | StreamEnd
  | StreamError string

section \<open>JavaScript values\<close>

text \<open>\<^verbatim>\<open>searchParams.get\<close> yields a string or null; null and the empty string are falsy.\<close>

definition truthy :: "string option \<Rightarrow> bool" where
  "truthy p = (case p of None \<Rightarrow> False | Some v \<Rightarrow> v \<noteq> [])"

definition json_of_param :: "string option \<Rightarrow> jvalue" where
  "json_of_param p = (case p of None \<Rightarrow> JNull | Some v \<Rightarrow> JString v)"

text \<open>\<^verbatim>\<open>searchParams.get('eventType') || 'sandbox-status'\<close>\<close>

definition eventType_or_default :: "request \<Rightarrow> string" where
  "eventType_or_default r =
     (case eventType r of None \<Rightarrow> ''sandbox-status''
      | Some v \<Rightarrow> if v = [] then ''sandbox-status'' else v)"

text \<open>\<^verbatim>\<open>error instanceof Error ? error.message : 'Unknown error'\<close>\<close>

definition error_message :: "thrown \<Rightarrow> string" where
  "error_message e = (case e of ErrorObj m \<Rightarrow> m | NonError \<Rightarrow> ''Unknown error'')"

section \<open>The events of the protocol\<close>

abbreviation connected_event :: "request \<Rightarrow> event" where
  "connected_event r \<equiv>
     Event ''connected''
       [(''message'', JString ''SSE connection established''),
        (''sandboxId'', json_of_param (sandboxId r)),
        (''sessionId'', json_of_param (sessionId r)),
        (''commandId'', json_of_param (commandId r)),
        (''eventType'', JString (eventType_or_default r))]"

abbreviation disconnected_event :: event where
  "disconnected_event \<equiv> Event ''disconnected'' [(''message'', JString ''Client disconnected'')]"

abbreviation log_event :: "request \<Rightarrow> string \<Rightarrow> nat \<Rightarrow> event" where
  "log_event r c t \<equiv>
     Event ''log''
       [(''sandboxId'', json_of_param (sandboxId r)),
        (''sessionId'', json_of_param (sessionId r)),
        (''commandId'', json_of_param (commandId r)),
        (''data'', JString c),
        (''timestamp'', JTimestamp t)]"

abbreviation log_complete_event :: "request \<Rightarrow> event" where
  "log_complete_event r \<equiv>
     Event ''log-complete''
       [(''sandboxId'', json_of_param (sandboxId r)),
        (''sessionId'', json_of_param (sessionId r)),
        (''commandId'', json_of_param (commandId r)),
        (''message'', JString ''Log stream ended'')]"

abbreviation status_event :: "request \<Rightarrow> string \<Rightarrow> nat \<Rightarrow> event" where
  "status_event r d t \<equiv>
     Event ''sandbox-status''
       [(''sandboxId'', json_of_param (sandboxId r)),
        (''status'', JUpstream d),
        (''timestamp'', JTimestamp t)]"

abbreviation sessions_event :: "request \<Rightarrow> string \<Rightarrow> nat \<Rightarrow> event" where
  "sessions_event r d t \<equiv>
     Event ''sessions-update''
       [(''sandboxId'', json_of_param (sandboxId r)),
        (''sessions'', JUpstream d),
        (''timestamp'', JTimestamp t)]"

abbreviation missing_ids_event :: event where
  "missing_ids_event \<equiv>
     Event ''error'' [(''message'', JString ''sessionId and commandId required for logs streaming'')]"

section \<open>The stream controller\<close>

text \<open>
  \<^verbatim>\<open>controller.enqueue\<close> and \<^verbatim>\<open>controller.close\<close> are the platform's
  \<^verbatim>\<open>ReadableStreamDefaultController\<close>: on a controller that is already closed both throw
  a \<^verbatim>\<open>TypeError\<close> and change nothing. \<^verbatim>\<open>sendEvent\<close> calls \<^verbatim>\<open>enqueue\<close> with no
  check of its own.
\<close>

definition controller_closed_error :: thrown where
  "controller_closed_error = ErrorObj ''Invalid state: Controller is already closed''"

definition sendEvent :: "event \<Rightarrow> state \<Rightarrow> thrown + state" where
  "sendEvent ev s =
     (if closed s then Inl controller_closed_error
      else Inr (s\<lparr>emitted := emitted s @ [ev]\<rparr>))"

definition controller_close :: "state \<Rightarrow> thrown + state" where
  "controller_close s =
     (if closed s then Inl controller_closed_error else Inr (s\<lparr>closed := True\<rparr>))"

text \<open>\<^verbatim>\<open>try { body } catch (error) { handler }\<close>\<close>

definition try_catch :: "thrown + state \<Rightarrow> (thrown \<Rightarrow> thrown + state) \<Rightarrow> thrown + state" where
  "try_catch body handler = (case body of Inr s \<Rightarrow> Inr s | Inl error \<Rightarrow> handler error)"

text \<open>
  \<^verbatim>\<open>daytonaClient.get\<close> starts an upstream request and suspends the caller: the request
  is recorded with the continuation that awaits it.
\<close>

definition launch :: "task \<Rightarrow> state \<Rightarrow> state" where
  "launch t s = s\<lparr>pending := pending s @ [(next_id s, t)], next_id := Suc (next_id s)\<rparr>"

definition clearInterval :: "state \<Rightarrow> state" where
  "clearInterval s = (case interval s of Running p \<Rightarrow> s\<lparr>interval := Cleared\<rparr> | _ \<Rightarrow> s)"

section \<open>The drivers\<close>

text \<open>\<^verbatim>\<open>pollStatus\<close> from its \<^verbatim>\<open>await\<close> on: the fetch has settled with \<open>r\<close>.\<close>

definition pollStatus :: "fetch_result \<Rightarrow> state \<Rightarrow> thrown + state" where
  "pollStatus r s =
     try_catch
       (case r of
          Rejected e \<Rightarrow> Inl e
        | Resolved d \<Rightarrow>
            sendEvent (status_event (req s) d (now s)) s)
       (\<lambda>error. sendEvent (Event ''error''
              [(''message'', JString ''Failed to get sandbox status''),
               (''error'', JString (error_message error))]) s)"

definition pollSessions :: "fetch_result \<Rightarrow> state \<Rightarrow> thrown + state" where
  "pollSessions r s =
     try_catch
       (case r of
          Rejected e \<Rightarrow> Inl e
        | Resolved d \<Rightarrow>
            sendEvent (sessions_event (req s) d (now s)) s)
       (\<lambda>error. sendEvent (Event ''error''
              [(''message'', JString ''Failed to get sessions''),
               (''error'', JString (error_message error))]) s)"

text \<open>
  \<^verbatim>\<open>streamSandboxStatus\<close> from \<^verbatim>\<open>await pollStatus()\<close> on: a rejection of the initial poll
  is rethrown, otherwise \<^verbatim>\<open>setInterval\<close> starts the schedule and the closure that
  clears it is returned.
\<close>

definition streamSandboxStatus :: "fetch_result \<Rightarrow> state \<Rightarrow> thrown + cleanup \<times> state" where
  "streamSandboxStatus r s =
     (case pollStatus r s of
        Inl e \<Rightarrow> Inl e
      | Inr s' \<Rightarrow> Inr (ClearInterval, s'\<lparr>interval := Running PollStatus\<rparr>))"

definition streamSessions :: "fetch_result \<Rightarrow> state \<Rightarrow> thrown + cleanup \<times> state" where
  "streamSessions r s =
     (case pollSessions r s of
        Inl e \<Rightarrow> Inl e
      | Inr s' \<Rightarrow> Inr (ClearInterval, s'\<lparr>interval := Running PollSessions\<rparr>))"

text \<open>
  \<^verbatim>\<open>streamCommandLogs\<close> from its \<^verbatim>\<open>await\<close> on: with a response the three listeners are
  registered on the upstream stream and nothing is returned; a failure to establish is
  reported from the \<^verbatim>\<open>catch\<close> block.
\<close>

definition streamCommandLogs :: "fetch_result \<Rightarrow> state \<Rightarrow> thrown + state" where
  "streamCommandLogs r s =
     try_catch
       (case r of
          Rejected e \<Rightarrow> Inl e
        | Resolved d \<Rightarrow> Inr (s\<lparr>upstream := Flowing\<rparr>))
       (\<lambda>error. sendEvent (Event ''error''
              [(''message'', JString ''Failed to stream command logs''),
               (''error'', JString (error_message error))]) s)"

text \<open>The listeners of the upstream stream; \<open>c\<close> is \<^verbatim>\<open>chunk.toString()\<close>.\<close>

definition on_data :: "string \<Rightarrow> state \<Rightarrow> thrown + state" where
  "on_data c s =
     sendEvent (log_event (req s) c (now s)) s"

definition on_end :: "state \<Rightarrow> thrown + state" where
  "on_end s =
     sendEvent (log_complete_event (req s)) s"

definition on_error :: "string \<Rightarrow> state \<Rightarrow> thrown + state" where
  "on_error m s =
     sendEvent (Event ''log-error''
       [(''sandboxId'', json_of_param (sandboxId (req s))),
        (''sessionId'', json_of_param (sessionId (req s))),
        (''commandId'', json_of_param (commandId (req s))),
        (''error'', JString m)]) s"

section \<open>The supervisor\<close>

text \<open>
  The \<^verbatim>\<open>catch\<close> block of \<^verbatim>\<open>handleEventStream\<close>. When its own \<^verbatim>\<open>sendEvent\<close> throws, the
  promise of \<^verbatim>\<open>handleEventStream\<close> rejects and nobody handles it: the value is recorded
  in \<open>faults\<close>.
\<close>

definition catch_stream_error :: "state \<Rightarrow> thrown + state \<Rightarrow> state" where
  "catch_stream_error s body =
     (case body of
        Inr s' \<Rightarrow> s'
      | Inl error \<Rightarrow>
          (case sendEvent (Event ''error''
                  [(''message'', JString ''Stream error''),
                   (''error'', JString (error_message error))]) s of
             Inr s' \<Rightarrow> s'
           | Inl e \<Rightarrow> s\<lparr>faults := faults s @ [e]\<rparr>))"

text \<open>A callback nobody awaits: what it throws is recorded in \<open>faults\<close>.\<close>

definition uncaught :: "state \<Rightarrow> thrown + state \<Rightarrow> state" where
  "uncaught s body = (case body of Inr s' \<Rightarrow> s' | Inl e \<Rightarrow> s\<lparr>faults := faults s @ [e]\<rparr>)"

text \<open>\<^verbatim>\<open>handleEventStream\<close> up to its first \<^verbatim>\<open>await\<close>.\<close>

definition handleEventStream :: "state \<Rightarrow> state" where
  "handleEventStream s =
     catch_stream_error s
       (let et = eventType_or_default (req s) in
        if et = ''logs'' then
          (if truthy (sessionId (req s)) \<and> truthy (commandId (req s))
           then Inr (launch LogsRequest s)
           else sendEvent missing_ids_event s)
        else if et = ''sandbox-status'' then Inr (launch (InitialPoll PollStatus) s)
        else if et = ''sessions'' then Inr (launch (InitialPoll PollSessions) s)
        else sendEvent (Event ''error''
               [(''message'', JString (''Unknown event type: '' @ et))]) s)"

text \<open>
  The continuation of a settled upstream request. For the initial request of a driver it
  is the rest of \<^verbatim>\<open>handleEventStream\<close> (inside its \<^verbatim>\<open>try\<close>); for a tick it is the rest
  of the poll function, whose promise \<^verbatim>\<open>setInterval\<close> drops.
\<close>

fun resume :: "task \<Rightarrow> fetch_result \<Rightarrow> state \<Rightarrow> state" where
  "resume LogsRequest r s = catch_stream_error s (streamCommandLogs r s)"
| "resume (InitialPoll PollStatus) r s =
     catch_stream_error s
       (case streamSandboxStatus r s of
          Inl e \<Rightarrow> Inl e
        | Inr (c, s') \<Rightarrow> Inr (s'\<lparr>cleanupFunction := Some c\<rparr>))"
| "resume (InitialPoll PollSessions) r s =
     catch_stream_error s
       (case streamSessions r s of
          Inl e \<Rightarrow> Inl e
        | Inr (c, s') \<Rightarrow> Inr (s'\<lparr>cleanupFunction := Some c\<rparr>))"
| "resume (TickPoll PollStatus) r s = uncaught s (pollStatus r s)"
| "resume (TickPoll PollSessions) r s = uncaught s (pollSessions r s)"

text \<open>
  The listener of the request's \<^verbatim>\<open>abort\<close> event: the recorded cleanup when there is one,
  then the \<open>disconnected\<close> event, then \<^verbatim>\<open>controller.close()\<close>. A throw leaves the rest of
  the listener undone.
\<close>

definition teardown :: "state \<Rightarrow> state" where
  "teardown s =
     (let s1 = (case cleanupFunction s of Some ClearInterval \<Rightarrow> clearInterval s | None \<Rightarrow> s) in
      case sendEvent disconnected_event s1 of
        Inl e \<Rightarrow> s1\<lparr>faults := faults s1 @ [e]\<rparr>
      | Inr s2 \<Rightarrow> uncaught s2 (controller_close s2))"

section \<open>The front door\<close>

definition fresh :: "request \<Rightarrow> state" where
  "fresh r = \<lparr>req = r, now = 0, emitted = [], closed = False, aborted = False,
              cleanupFunction = None, interval = NoInterval, pending = [], next_id = 0,
              upstream = NoStream, faults = []\<rparr>"

text \<open>The \<^verbatim>\<open>start\<close> callback of the \<^verbatim>\<open>ReadableStream\<close>, at clock reading \<open>t\<close>.\<close>

definition start :: "request \<Rightarrow> nat \<Rightarrow> thrown + state" where
  "start r t =
     (case sendEvent (connected_event r) ((fresh r)\<lparr>now := t\<rparr>) of
        Inl e \<Rightarrow> Inl e
      | Inr s \<Rightarrow> Inr (handleEventStream s))"

definition GET :: "request \<Rightarrow> nat \<Rightarrow> response" where
  "GET r t =
     (if \<not> truthy (sandboxId r) then PlainResponse 400 ''Missing sandboxId parameter''
      else case start r t of Inl e \<Rightarrow> Thrown e | Inr s \<Rightarrow> StreamResponse s)"

section \<open>The event loop\<close>

text \<open>
  One input of the environment fires one callback. A settled request that nobody awaits,
  an interval that is not running, a second \<^verbatim>\<open>abort\<close> of the same signal and a stream
  event on a stream that is not flowing fire nothing. The stream emits \<^verbatim>\<open>end\<close> or
  \<^verbatim>\<open>error\<close> once and no \<^verbatim>\<open>data\<close> after either.
\<close>

definition step :: "state \<Rightarrow> input \<Rightarrow> state" where
  "step s i =
     (case i of
        Elapse d \<Rightarrow> s\<lparr>now := now s + d\<rparr>
      | FetchSettles k r \<Rightarrow>
          (case map_of (pending s) k of
             None \<Rightarrow> s
           | Some t \<Rightarrow> resume t r (s\<lparr>pending := filter (\<lambda>p. fst p \<noteq> k) (pending s)\<rparr>))
      | IntervalFires \<Rightarrow>
          (case interval s of Running p \<Rightarrow> launch (TickPoll p) s | _ \<Rightarrow> s)
      | Abort \<Rightarrow> (if aborted s then s else teardown (s\<lparr>aborted := True\<rparr>))
      | Chunk c \<Rightarrow> (if upstream s = Flowing then uncaught s (on_data c s) else s)
      | StreamEnd \<Rightarrow>
          (if upstream s = Flowing
           then uncaught (s\<lparr>upstream := Ended\<rparr>) (on_end (s\<lparr>upstream := Ended\<rparr>)) else s)
      | StreamError m \<Rightarrow>
          (if upstream s = Flowing
           then uncaught (s\<lparr>upstream := Failed\<rparr>) (on_error m (s\<lparr>upstream := Failed\<rparr>)) else s))"

definition run :: "state \<Rightarrow> input list \<Rightarrow> state" where
  "run s tr = foldl step s tr"

section \<open>The tool that hands out the stream's URL\<close>





















section \<open>Observations on a channel\<close>

definition timestamp_of :: "event \<Rightarrow> nat option" where
  "timestamp_of e =
     (case map_of (payload e) ''timestamp'' of Some (JTimestamp t) \<Rightarrow> Some t | _ \<Rightarrow> None)"

definition timestamps :: "event list \<Rightarrow> nat list" where
  "timestamps es = List.map_filter timestamp_of es"

text \<open>The poll driver that the request selects, if it selects one.\<close>

definition poll_of :: "request \<Rightarrow> poll option" where
  "poll_of r =
     (if eventType_or_default r = ''sandbox-status'' then Some PollStatus
      else if eventType_or_default r = ''sessions'' then Some PollSessions
      else None)"

definition failure_summary :: "poll \<Rightarrow> string" where
  "failure_summary p =
     (case p of PollStatus \<Rightarrow> ''Failed to get sandbox status''
      | PollSessions \<Rightarrow> ''Failed to get sessions'')"

definition poll_event :: "poll \<Rightarrow> request \<Rightarrow> string \<Rightarrow> nat \<Rightarrow> event" where
  "poll_event p r d t =
     (case p of PollStatus \<Rightarrow> status_event r d t | PollSessions \<Rightarrow> sessions_event r d t)"

definition poll_failure_event :: "poll \<Rightarrow> thrown \<Rightarrow> event" where
  "poll_failure_event p e =
     Event ''error'' [(''message'', JString (failure_summary p)),
                      (''error'', JString (error_message e))]"

text \<open>A trace without the passing of time.\<close>

definition without_clock :: "input list \<Rightarrow> input list" where
  "without_clock tr = filter (\<lambda>i. case i of Elapse d \<Rightarrow> False | _ \<Rightarrow> True) tr"

text \<open>
  The order of a channel opened for \<open>r\<close>: \<open>connected\<close> first and only there,
  \<open>disconnected\<close> exactly when the channel is closed, and then last and only there.
\<close>

definition ordered :: "request \<Rightarrow> state \<Rightarrow> bool" where
  "ordered r s \<longleftrightarrow>
     (\<exists>rest. emitted s = connected_event r # rest \<and> ''connected'' \<notin> name ` set rest \<and>
        (if closed s
         then \<exists>mid. rest = mid @ [disconnected_event] \<and> ''disconnected'' \<notin> name ` set mid
         else ''disconnected'' \<notin> name ` set rest))"

text \<open>A channel with no driver activity left: nothing awaited, no schedule, no flowing stream.\<close>

definition quiet :: "state \<Rightarrow> bool" where
  "quiet s \<longleftrightarrow> pending s = [] \<and> upstream s \<noteq> Flowing \<and> (\<forall>p. interval s \<noteq> Running p)"

text \<open>
  What the poll requests in flight and the schedule have to do with the request: both
  belong to the driver the request selects, and on an open channel a tick in flight
  means the schedule is running.
\<close>

definition consistent :: "state \<Rightarrow> bool" where
  "consistent s \<longleftrightarrow>
     (\<forall>k p. (k, InitialPoll p) \<in> set (pending s) \<or> (k, TickPoll p) \<in> set (pending s)
        \<longrightarrow> poll_of (req s) = Some p) \<and>
     (\<forall>p. interval s = Running p \<longrightarrow> poll_of (req s) = Some p) \<and>
     (\<not> closed s \<longrightarrow> (\<exists>k p. (k, TickPoll p) \<in> set (pending s)) \<longrightarrow> (\<exists>p. interval s = Running p))"

text \<open>Every timestamp on the channel is a past reading of the clock, in emission order.\<close>

definition stamped :: "state \<Rightarrow> bool" where
  "stamped s \<longleftrightarrow>
     sorted (timestamps (emitted s)) \<and> (\<forall>t \<in> set (timestamps (emitted s)). t \<le> now s)"

section \<open>Sample requests\<close>

definition status_request :: request where
  "status_request = \<lparr>sandboxId = Some ''sbx-1'', sessionId = None, commandId = None,
                      eventType = None\<rparr>"

definition logs_request :: request where
  "logs_request = \<lparr>sandboxId = Some ''sbx-1'', sessionId = Some ''sess-1'',
                    commandId = Some ''cmd-1'', eventType = Some ''logs''\<rparr>"

definition bare_logs_request :: request where
  "bare_logs_request = \<lparr>sandboxId = Some ''sbx-1'', sessionId = None, commandId = None,
                         eventType = Some ''logs''\<rparr>"

text \<open>The channels that \<^verbatim>\<open>GET\<close> opens for two of them at clock reading 0.\<close>

definition status_channel :: state where
  "status_channel =
     handleEventStream ((fresh status_request)\<lparr>emitted := [connected_event status_request]\<rparr>)"

definition logs_channel :: state where
  "logs_channel =
     handleEventStream ((fresh logs_request)\<lparr>emitted := [connected_event logs_request]\<rparr>)"


section \<open>Auxiliary facts\<close>

subsection \<open>Unfolding the model\<close>

text \<open>The handlers, the event loop and the sample values, for proofs by unfolding.\<close>

lemmas handler_defs = sendEvent_def controller_close_def try_catch_def launch_def clearInterval_def
  pollStatus_def pollSessions_def streamSandboxStatus_def streamSessions_def streamCommandLogs_def
  on_data_def on_end_def on_error_def catch_stream_error_def uncaught_def

lemmas model_defs = run_def step_def handleEventStream_def fresh_def eventType_or_default_def
  truthy_def handler_defs Let_def

lemmas sample_defs = status_request_def logs_request_def
  bare_logs_request_def status_channel_def logs_channel_def

subsection \<open>Runs\<close>

lemma run_Nil: "run s [] = s" by (simp add: run_def)

lemma run_snoc: "run s (tr @ [i]) = step (run s tr) i" by (simp add: run_def)

lemma run_Cons: "run s (i # tr) = run (step s i) tr" by (simp add: run_def)

lemma run_append: "run s (tr @ tr') = run (run s tr) tr'" by (simp add: run_def)

subsection \<open>What a callback leaves alone\<close>

text \<open>
  Each callback changes a few fields of the state; these facts say which ones it keeps.
\<close>

lemma clearInterval_frame:
  "req (clearInterval s) = req s" "pending (clearInterval s) = pending s"
  "aborted (clearInterval s) = aborted s" "next_id (clearInterval s) = next_id s"
  "now (clearInterval s) = now s" "closed (clearInterval s) = closed s"
  "emitted (clearInterval s) = emitted s" "faults (clearInterval s) = faults s"
  "upstream (clearInterval s) = upstream s" "cleanupFunction (clearInterval s) = cleanupFunction s"
  "interval (clearInterval s) \<noteq> Running p"
  by (auto simp: clearInterval_def split: interval_state.splits)

lemma teardown_frame:
  "req (teardown s) = req s" "pending (teardown s) = pending s"
  "aborted (teardown s) = aborted s" "next_id (teardown s) = next_id s"
  "now (teardown s) = now s" "closed (teardown s)"
  "upstream (teardown s) = upstream s" "cleanupFunction (teardown s) = cleanupFunction s"
  by (auto simp: teardown_def Let_def sendEvent_def controller_close_def uncaught_def
      clearInterval_frame split: option.splits cleanup.splits)

lemma teardown_interval:
  "interval (teardown s) =
     (case cleanupFunction s of None \<Rightarrow> interval s | Some c \<Rightarrow> interval (clearInterval s))"
  by (auto simp: teardown_def Let_def sendEvent_def controller_close_def uncaught_def
      split: option.splits cleanup.splits)

lemma teardown_emitted:
  "emitted (teardown s) = (if closed s then emitted s else emitted s @ [disconnected_event])"
  "faults (teardown s) = (if closed s then faults s @ [controller_closed_error] else faults s)"
  by (auto simp: teardown_def Let_def sendEvent_def controller_close_def uncaught_def
      clearInterval_frame split: option.splits cleanup.splits)

lemmas teardown_simps = teardown_frame teardown_interval teardown_emitted

lemma resume_frame:
  "req (resume t r s) = req s" "pending (resume t r s) = pending s"
  "aborted (resume t r s) = aborted s" "next_id (resume t r s) = next_id s"
  "now (resume t r s) = now s" "closed (resume t r s) = closed s"
  by (induction t r s rule: resume.induct; auto simp: handler_defs split: fetch_result.splits)+

lemma resume_interval:
  "interval (resume t r s) =
     (case t of InitialPoll p \<Rightarrow> if closed s then interval s else Running p | _ \<Rightarrow> interval s)"
  by (induction t r s rule: resume.induct) (auto simp: handler_defs split: fetch_result.splits)

lemma req_step: "req (step s i) = req s"
  by (cases i) (auto simp: step_def resume_frame teardown_simps handler_defs
      split: option.splits interval_state.splits)

lemma req_run: "req (run s tr) = req s"
  by (induction tr rule: rev_induct) (simp_all add: run_Nil run_snoc req_step)

lemma now_step: "now s \<le> now (step s i)"
  by (cases i) (auto simp: step_def resume_frame teardown_simps handler_defs
      split: option.splits interval_state.splits)

subsection \<open>Single steps\<close>

lemma step_Elapse: "step s (Elapse d) = s\<lparr>now := now s + d\<rparr>"
  by (simp add: step_def)

lemma step_Chunk:
  "upstream s = Flowing \<Longrightarrow> \<not> closed s \<Longrightarrow>
   step s (Chunk c) = s\<lparr>emitted := emitted s @ [log_event (req s) c (now s)]\<rparr>"
  by (simp add: step_def on_data_def sendEvent_def uncaught_def)

lemma step_StreamEnd:
  "upstream s = Flowing \<Longrightarrow> \<not> closed s \<Longrightarrow>
   step s StreamEnd = s\<lparr>upstream := Ended, emitted := emitted s @ [log_complete_event (req s)]\<rparr>"
  by (simp add: step_def on_end_def sendEvent_def uncaught_def)

lemma step_settle:
  assumes "map_of (pending s) k = Some t"
  shows "step s (FetchSettles k r) =
           resume t r (s\<lparr>pending := filter (\<lambda>q. fst q \<noteq> k) (pending s)\<rparr>)"
  using assms by (simp add: step_def)

lemma step_tick:
  assumes "interval s = Running p"
  shows "step s IntervalFires =
           s\<lparr>pending := pending s @ [(next_id s, TickPoll p)], next_id := Suc (next_id s)\<rparr>"
  using assms by (simp add: step_def launch_def)

lemma abort_open:
  assumes "\<not> closed s" "\<not> aborted s"
  shows "emitted (step s Abort) = emitted s @ [disconnected_event]" "closed (step s Abort)"
    "aborted (step s Abort)" "faults (step s Abort) = faults s"
  using assms by (auto simp: step_def teardown_simps)

lemma resume_rejected:
  assumes "\<not> closed s" "t = InitialPoll p \<or> t = TickPoll p"
  shows "emitted (resume t (Rejected e) s) = emitted s @ [poll_failure_event p e]"
  using assms
  by (cases p) (auto simp: handler_defs poll_failure_event_def failure_summary_def)

lemma resume_resolved:
  assumes "\<not> closed s" "t = InitialPoll p \<or> t = TickPoll p"
  shows "emitted (resume t (Resolved d) s) = emitted s @ [poll_event p (req s) d (now s)]"
  using assms
  by (cases p) (auto simp: handler_defs poll_event_def)

subsection \<open>The state behind a stream response\<close>

lemma GET_stream:
  assumes "GET r t = StreamResponse s0"
  shows "truthy (sandboxId r)"
    and "s0 = handleEventStream ((fresh r)\<lparr>now := t, emitted := [connected_event r]\<rparr>)"
  using assms by (auto simp: GET_def start_def sendEvent_def fresh_def split: if_splits)

lemma GET_opens:
  "truthy (sandboxId r) \<Longrightarrow>
   GET r t = StreamResponse (handleEventStream ((fresh r)\<lparr>now := t, emitted := [connected_event r]\<rparr>))"
  by (simp add: GET_def start_def sendEvent_def fresh_def)

lemma start_state:
  assumes "GET r t = StreamResponse s0"
  shows "req s0 = r" "\<not> closed s0" "\<not> aborted s0" "interval s0 = NoInterval"
    "cleanupFunction s0 = None" "upstream s0 = NoStream" "faults s0 = []" "now s0 = t"
  unfolding GET_stream(2)[OF assms]
  by (auto simp: handleEventStream_def fresh_def handler_defs Let_def)

lemma start_pending:
  assumes "GET r t = StreamResponse s0"
  shows "pending s0 = (case poll_of r of Some p \<Rightarrow> [(0, InitialPoll p)]
            | None \<Rightarrow> if eventType_or_default r = ''logs'' \<and> truthy (sessionId r) \<and> truthy (commandId r)
                       then [(0, LogsRequest)] else [])"
  unfolding GET_stream(2)[OF assms]
  by (auto simp: handleEventStream_def fresh_def handler_defs Let_def poll_of_def)

lemma start_emitted:
  assumes "GET r t = StreamResponse s0"
  shows "\<not> closed s0 \<and> (\<exists>rest. emitted s0 = connected_event r # rest
            \<and> ''connected'' \<notin> name ` set rest \<and> ''disconnected'' \<notin> name ` set rest)"
  unfolding GET_stream(2)[OF assms]
  by (auto simp: handleEventStream_def fresh_def handler_defs Let_def)

lemma start_logs_missing:
  assumes "truthy (sandboxId r)" "eventType r = Some ''logs''"
    "\<not> (truthy (sessionId r) \<and> truthy (commandId r))"
  shows "GET r t = StreamResponse
           ((fresh r)\<lparr>now := t, emitted := [connected_event r, missing_ids_event]\<rparr>)"
  using assms unfolding GET_opens[OF assms(1)]
  by (auto simp: handleEventStream_def eventType_or_default_def handler_defs fresh_def Let_def)

lemma start_logs:
  assumes "truthy (sandboxId r)" "eventType r = Some ''logs''"
    "truthy (sessionId r)" "truthy (commandId r)"
  shows "GET r t = StreamResponse
           ((fresh r)\<lparr>now := t, emitted := [connected_event r], pending := [(0, LogsRequest)],
                       next_id := Suc 0\<rparr>)"
  using assms unfolding GET_opens[OF assms(1)]
  by (auto simp: handleEventStream_def eventType_or_default_def handler_defs fresh_def Let_def)

lemma GET_status_channel: "GET status_request 0 = StreamResponse status_channel"
  by (simp add: GET_def start_def sendEvent_def fresh_def status_channel_def status_request_def
      truthy_def)

lemma GET_logs_channel: "GET logs_request 0 = StreamResponse logs_channel"
  by (simp add: GET_def start_def sendEvent_def fresh_def logs_channel_def logs_request_def
      truthy_def)

subsection \<open>Emission on a closed and on an open channel\<close>

text \<open>
  A closed channel takes no event; an open one takes at most one per step, and only the
  abort listener emits \<open>disconnected\<close> and closes.
\<close>

lemma resume_cases:
  "closed s \<Longrightarrow> emitted (resume t r s) = emitted s \<and> closed (resume t r s)"
  by (induction t r s rule: resume.induct) (auto simp: handler_defs split: fetch_result.splits)

lemma step_closed:
  "closed s \<Longrightarrow> emitted (step s i) = emitted s \<and> closed (step s i)"
  by (cases i)
     (auto simp: step_def resume_cases teardown_def handler_defs
           split: option.splits interval_state.splits cleanup.splits)

lemma resume_open:
  "\<not> closed s \<Longrightarrow> \<not> closed (resume t r s) \<and>
     (\<exists>e. emitted (resume t r s) = emitted s @ [e]
           \<and> name e \<noteq> ''connected'' \<and> name e \<noteq> ''disconnected''
       \<or> emitted (resume t r s) = emitted s)"
  by (induction t r s rule: resume.induct) (auto simp: handler_defs split: fetch_result.splits)

lemma step_open:
  assumes op: "\<not> closed s"
  shows "(\<not> closed (step s i) \<and> emitted (step s i) = emitted s)
   \<or> (\<not> closed (step s i)
       \<and> (\<exists>e. emitted (step s i) = emitted s @ [e]
              \<and> name e \<noteq> ''connected'' \<and> name e \<noteq> ''disconnected''))
   \<or> (closed (step s i) \<and> emitted (step s i) = emitted s @ [disconnected_event])"
proof (cases i)
  case (FetchSettles k r)
  show ?thesis
  proof (cases "map_of (pending s) k")
    case None
    with FetchSettles op show ?thesis by (simp add: step_def)
  next
    case (Some t)
    let ?s = "s\<lparr>pending := filter (\<lambda>p. fst p \<noteq> k) (pending s)\<rparr>"
    have "step s i = resume t r ?s" using FetchSettles Some by (simp add: step_def)
    moreover have "\<not> closed ?s" "emitted ?s = emitted s" using op by simp_all
    ultimately show ?thesis using resume_open[of ?s t r] by auto
  qed
qed (use op in \<open>auto simp: step_def teardown_def handler_defs
        split: option.splits interval_state.splits cleanup.splits\<close>)

lemma ordered_step: assumes "ordered r s" shows "ordered r (step s i)"
proof (cases "closed s")
  case True
  with assms step_closed[of s i] show ?thesis by (simp add: ordered_def)
next
  case False
  from assms False obtain rest where rest: "emitted s = connected_event r # rest"
     "''connected'' \<notin> name ` set rest" "''disconnected'' \<notin> name ` set rest"
    by (auto simp: ordered_def)
  from step_open[OF False, of i] show ?thesis
  proof (elim disjE conjE exE)
    assume "\<not> closed (step s i)" "emitted (step s i) = emitted s"
    with rest show ?thesis by (simp add: ordered_def)
  next
    fix e assume "\<not> closed (step s i)" "emitted (step s i) = emitted s @ [e]"
      "name e \<noteq> ''connected''" "name e \<noteq> ''disconnected''"
    with rest show ?thesis by (auto simp: ordered_def)
  next
    assume "closed (step s i)" "emitted (step s i) = emitted s @ [disconnected_event]"
    with rest show ?thesis by (auto simp: ordered_def)
  qed
qed

lemma ordered_run: "ordered r s \<Longrightarrow> ordered r (run s tr)"
  by (induction tr rule: rev_induct) (simp_all add: run_Nil run_snoc ordered_step)

subsection \<open>Channels without driver activity\<close>

lemma quiet_step:
  assumes "quiet s" "i \<noteq> Abort"
  shows "quiet (step s i)" "emitted (step s i) = emitted s" "closed (step s i) = closed s"
    "aborted (step s i) = aborted s"
  using assms by (cases i; auto simp: quiet_def step_def split: interval_state.splits)+

lemma quiet_abort:
  assumes "quiet s"
  shows "quiet (step s Abort)"
  using assms by (auto simp: quiet_def step_def teardown_simps clearInterval_frame split: option.splits)

lemma quiet_run:
  assumes "quiet s" "\<not> closed s" "\<not> aborted s"
  shows "quiet (run s tr) \<and>
     (if Abort \<in> set tr
      then closed (run s tr) \<and> aborted (run s tr) \<and> emitted (run s tr) = emitted s @ [disconnected_event]
      else \<not> closed (run s tr) \<and> \<not> aborted (run s tr) \<and> emitted (run s tr) = emitted s)"
proof (induction tr rule: rev_induct)
  case Nil
  show ?case using assms by (simp add: run_Nil)
next
  case (snoc i tr)
  let ?s = "run s tr"
  have q: "quiet ?s" using snoc by simp
  show ?case
  proof (cases "i = Abort")
    case False
    then show ?thesis using snoc quiet_step[OF q False] by (auto simp: run_snoc)
  next
    case True
    show ?thesis
    proof (cases "Abort \<in> set tr")
      case True
      then have "aborted ?s" using snoc by simp
      then have "step ?s Abort = ?s" by (simp add: step_def)
      then show ?thesis using snoc True \<open>i = Abort\<close> by (simp add: run_snoc)
    next
      case False
      then have "\<not> closed ?s" "\<not> aborted ?s" "emitted ?s = emitted s" using snoc by simp_all
      then show ?thesis using abort_open[of ?s] quiet_abort[OF q] \<open>i = Abort\<close> by (simp add: run_snoc)
    qed
  qed
qed

subsection \<open>Runs of the log stream\<close>

lemma without_clock_Cons:
  "without_clock (i # tr) = (case i of Elapse d \<Rightarrow> without_clock tr | _ \<Rightarrow> i # without_clock tr)"
  by (simp add: without_clock_def split: input.splits)

lemma elapse_only:
  "without_clock tr = [] \<Longrightarrow>
   emitted (run s tr) = emitted s \<and> upstream (run s tr) = upstream s \<and>
   pending (run s tr) = pending s \<and> interval (run s tr) = interval s \<and>
   closed (run s tr) = closed s \<and> aborted (run s tr) = aborted s"
proof (induction tr arbitrary: s)
  case Nil
  show ?case by (simp add: run_Nil)
next
  case (Cons i tr)
  then obtain d where i: "i = Elapse d" and tr: "without_clock tr = []"
    by (auto simp: without_clock_Cons split: input.splits)
  from Cons.IH[OF tr, of "step s i"] show ?case
    by (simp add: run_Cons i step_Elapse)
qed

lemma flowing_run:
  assumes "upstream s = Flowing" "\<not> closed s" "without_clock tr = map Chunk cs @ [StreamEnd]"
  shows "\<exists>ts. length ts = length cs
          \<and> emitted (run s tr) =
               emitted s @ map2 (log_event (req s)) cs ts @ [log_complete_event (req s)]
          \<and> upstream (run s tr) = Ended \<and> pending (run s tr) = pending s
          \<and> interval (run s tr) = interval s \<and> \<not> closed (run s tr)
          \<and> aborted (run s tr) = aborted s"
  using assms
proof (induction tr arbitrary: s cs)
  case Nil
  then show ?case by (simp add: without_clock_def)
next
  case (Cons i tr)
  show ?case
  proof (cases i)
    case (Elapse d)
    let ?s = "step s i"
    have "upstream ?s = Flowing" "\<not> closed ?s" "without_clock tr = map Chunk cs @ [StreamEnd]"
      using Cons.prems Elapse by (simp_all add: step_Elapse without_clock_Cons)
    from Cons.IH[OF this] show ?thesis by (simp add: run_Cons Elapse step_Elapse)
  next
    case (Chunk c)
    with Cons.prems obtain cs' where cs: "cs = c # cs'"
      and tr: "without_clock tr = map Chunk cs' @ [StreamEnd]"
      by (cases cs) (auto simp: without_clock_Cons)
    let ?s = "step s i"
    have st: "?s = s\<lparr>emitted := emitted s @ [log_event (req s) c (now s)]\<rparr>"
      using Cons.prems Chunk by (simp add: step_Chunk)
    then have "upstream ?s = Flowing" "\<not> closed ?s" using Cons.prems by simp_all
    from Cons.IH[OF this tr] obtain ts where ts: "length ts = length cs'"
      "emitted (run ?s tr) =
         emitted ?s @ map2 (log_event (req ?s)) cs' ts @ [log_complete_event (req ?s)]"
      "upstream (run ?s tr) = Ended" "pending (run ?s tr) = pending ?s"
      "interval (run ?s tr) = interval ?s" "\<not> closed (run ?s tr)"
      "aborted (run ?s tr) = aborted ?s"
      by blast
    show ?thesis
      by (rule exI[of _ "now s # ts"]) (use ts in \<open>simp add: run_Cons cs st\<close>)
  next
    case StreamEnd
    with Cons.prems have cs: "cs = []" and tr: "without_clock tr = []"
      by (cases cs; auto simp: without_clock_Cons)+
    let ?s = "step s i"
    have st: "?s = s\<lparr>upstream := Ended, emitted := emitted s @ [log_complete_event (req s)]\<rparr>"
      using Cons.prems StreamEnd by (simp add: step_StreamEnd)
    from elapse_only[OF tr, of ?s] show ?thesis
      using Cons.prems by (simp add: run_Cons cs st)
  qed (use Cons.prems in \<open>cases cs; auto simp: without_clock_Cons\<close>)+
qed

lemma establish_run:
  assumes "pending s = [(0, LogsRequest)]" "\<not> closed s"
    "without_clock tr = FetchSettles 0 (Resolved d) # map Chunk cs @ [StreamEnd]"
  shows "\<exists>ts. length ts = length cs
          \<and> emitted (run s tr) =
               emitted s @ map2 (log_event (req s)) cs ts @ [log_complete_event (req s)]
          \<and> upstream (run s tr) = Ended \<and> pending (run s tr) = []
          \<and> interval (run s tr) = interval s \<and> \<not> closed (run s tr)
          \<and> aborted (run s tr) = aborted s"
  using assms
proof (induction tr arbitrary: s)
  case Nil
  then show ?case by (simp add: without_clock_def)
next
  case (Cons i tr)
  show ?case
  proof (cases i)
    case (Elapse d')
    let ?s = "step s i"
    have "pending ?s = [(0, LogsRequest)]" "\<not> closed ?s"
      "without_clock tr = FetchSettles 0 (Resolved d) # map Chunk cs @ [StreamEnd]"
      using Cons.prems Elapse by (simp_all add: step_Elapse without_clock_Cons)
    from Cons.IH[OF this] show ?thesis by (simp add: run_Cons Elapse step_Elapse)
  next
    case (FetchSettles k res)
    with Cons.prems have k: "k = 0" "res = Resolved d"
      and tr: "without_clock tr = map Chunk cs @ [StreamEnd]"
      by (auto simp: without_clock_Cons)
    let ?s = "step s i"
    have st: "?s = s\<lparr>pending := [], upstream := Flowing\<rparr>"
      using Cons.prems FetchSettles k
      by (simp add: step_def streamCommandLogs_def try_catch_def catch_stream_error_def)
    then have "upstream ?s = Flowing" "\<not> closed ?s" using Cons.prems by simp_all
    from flowing_run[OF this tr] show ?thesis by (simp add: run_Cons st)
  qed (use Cons.prems in \<open>auto simp: without_clock_Cons\<close>)
qed

subsection \<open>Polls in flight and the schedule\<close>

lemma consistent_start:
  assumes "GET r t = StreamResponse s0"
  shows "consistent s0"
  using start_state[OF assms] start_pending[OF assms]
  by (auto simp: consistent_def split: option.splits if_splits)

lemma resume_consistent:
  assumes "consistent s" "\<And>p. t = InitialPoll p \<Longrightarrow> poll_of (req s) = Some p"
  shows "consistent (resume t r s)"
  using assms
  by (auto simp: consistent_def resume_frame resume_interval split: task.splits)

lemma consistent_step:
  assumes "consistent s"
  shows "consistent (step s i)"
proof (cases i)
  case (FetchSettles k r)
  show ?thesis
  proof (cases "map_of (pending s) k")
    case None
    with FetchSettles assms show ?thesis by (simp add: step_def)
  next
    case (Some t)
    let ?s = "s\<lparr>pending := filter (\<lambda>p. fst p \<noteq> k) (pending s)\<rparr>"
    have st: "step s i = resume t r ?s" using FetchSettles Some by (simp add: step_def)
    have "(k, t) \<in> set (pending s)" using Some by (rule map_of_SomeD)
    then have "poll_of (req ?s) = Some p" if "t = InitialPoll p" for p
      using assms that by (auto simp: consistent_def)
    moreover have "consistent ?s" using assms by (auto simp: consistent_def)
    ultimately show ?thesis unfolding st by (rule resume_consistent[rotated])
  qed
next
  case IntervalFires
  with assms show ?thesis
    by (auto simp: consistent_def step_def launch_def split: interval_state.splits)
next
  case Abort
  with assms show ?thesis
    by (auto simp: consistent_def step_def teardown_simps clearInterval_frame clearInterval_def
        split: option.splits interval_state.splits)
qed (use assms in \<open>auto simp: consistent_def step_def handler_defs\<close>)

lemma consistent_run: "consistent s \<Longrightarrow> consistent (run s tr)"
  by (induction tr rule: rev_induct) (simp_all add: run_Nil run_snoc consistent_step)

lemma tick_running:
  assumes "consistent s" "\<not> closed s" "map_of (pending s) k = Some (TickPoll p)"
  shows "interval s = Running p"
proof -
  have m: "(k, TickPoll p) \<in> set (pending s)" using assms(3) by (rule map_of_SomeD)
  with assms(1,2) obtain p' where p': "interval s = Running p'"
    unfolding consistent_def by blast
  with assms(1) have "poll_of (req s) = Some p'" unfolding consistent_def by blast
  moreover from assms(1) m have "poll_of (req s) = Some p" unfolding consistent_def by blast
  ultimately show ?thesis using p' by simp
qed

subsection \<open>Timestamps\<close>

lemma timestamps_snoc:
  "timestamps (es @ [e]) = timestamps es @ (case timestamp_of e of None \<Rightarrow> [] | Some t \<Rightarrow> [t])"
  by (simp add: timestamps_def List.map_filter_def split: option.splits)

lemma resume_stamp:
  "emitted (resume t r s) = emitted s
   \<or> (\<exists>e. emitted (resume t r s) = emitted s @ [e]
          \<and> (timestamp_of e = None \<or> timestamp_of e = Some (now s)))"
  by (induction t r s rule: resume.induct)
     (auto simp: handler_defs timestamp_of_def split: fetch_result.splits)

lemma step_stamp:
  "emitted (step s i) = emitted s
   \<or> (\<exists>e. emitted (step s i) = emitted s @ [e]
          \<and> (timestamp_of e = None \<or> timestamp_of e = Some (now s)))"
proof (cases i)
  case (FetchSettles k r)
  show ?thesis
  proof (cases "map_of (pending s) k")
    case None
    with FetchSettles show ?thesis by (simp add: step_def)
  next
    case (Some t)
    let ?s = "s\<lparr>pending := filter (\<lambda>q. fst q \<noteq> k) (pending s)\<rparr>"
    from resume_stamp[of t r ?s] show ?thesis
      unfolding FetchSettles step_settle[OF Some] by simp
  qed
next
  case Abort
  then show ?thesis by (auto simp: step_def teardown_simps timestamp_of_def)
qed (auto simp: step_def handler_defs timestamp_of_def split: interval_state.splits)

lemma stamped_step:
  assumes "stamped s"
  shows "stamped (step s i)"
proof -
  have n: "now s \<le> now (step s i)" by (rule now_step)
  from step_stamp[of s i] show ?thesis
  proof (elim disjE exE conjE)
    assume "emitted (step s i) = emitted s"
    with assms n show ?thesis by (auto simp: stamped_def)
  next
    fix e assume "emitted (step s i) = emitted s @ [e]" "timestamp_of e = None"
    with assms n show ?thesis by (auto simp: stamped_def timestamps_snoc)
  next
    fix e assume "emitted (step s i) = emitted s @ [e]" "timestamp_of e = Some (now s)"
    with assms n show ?thesis by (auto simp: stamped_def timestamps_snoc sorted_append)
  qed
qed

lemma stamped_run: "stamped s \<Longrightarrow> stamped (run s tr)"
  by (induction tr rule: rev_induct) (simp_all add: run_Nil run_snoc stamped_step)

lemma stamped_start:
  assumes "GET r t = StreamResponse s0"
  shows "stamped s0"
  unfolding GET_stream(2)[OF assms]
  by (auto simp: stamped_def timestamps_def List.map_filter_def timestamp_of_def
      handleEventStream_def fresh_def handler_defs Let_def)

subsection \<open>The query of the URL\<close>























subsection \<open>The abort signal\<close>









section \<open>Rejection of a request without target\<close>

text \<open>
  C8. A request whose \<^verbatim>\<open>sandboxId\<close> is missing (absent or empty) is answered at once with
  a plain response of status 400: no stream is opened, so no event is emitted.
\<close>

theorem GET_missing_sandboxId:
  "\<not> truthy (sandboxId r) \<Longrightarrow> GET r t = PlainResponse 400 ''Missing sandboxId parameter''"
  by (simp add: GET_def)

theorem GET_missing_sandboxId_witness:
  "\<not> truthy (sandboxId \<lparr>sandboxId = None, sessionId = Some ''s'', commandId = None,
                         eventType = Some ''logs''\<rparr>)
   \<and> GET \<lparr>sandboxId = None, sessionId = Some ''s'', commandId = None,
          eventType = Some ''logs''\<rparr> 7
      = PlainResponse 400 ''Missing sandboxId parameter''"
  using GET_missing_sandboxId
    [of "\<lparr>sandboxId = None, sessionId = Some ''s'', commandId = None, eventType = Some ''logs''\<rparr>" 7]
  by (simp add: truthy_def)

section \<open>Order of the channel\<close>

text \<open>
  C6. On the channel of every accepted request the \<open>connected\<close> event is the first event
  and no later event bears that name; a \<open>disconnected\<close> event occurs at most once, and
  when it occurs it is the last event. This holds after every sequence of inputs.
\<close>

theorem channel_order:
  assumes "GET r t = StreamResponse s0"
  shows "\<exists>rest. emitted (run s0 tr) = connected_event r # rest
           \<and> ''connected'' \<notin> name ` set rest
           \<and> (''disconnected'' \<notin> name ` set rest
              \<or> (\<exists>mid. rest = mid @ [disconnected_event] \<and> ''disconnected'' \<notin> name ` set mid))"
proof -
  have "ordered r s0" using start_emitted[OF assms] by (auto simp: ordered_def)
  then have "ordered r (run s0 tr)" by (rule ordered_run)
  then show ?thesis by (auto simp: ordered_def split: if_splits)
qed

theorem channel_order_witness:
  "\<exists>rest mid.
      emitted (run status_channel [FetchSettles 0 (Resolved ''up''), Abort, IntervalFires]) =
        connected_event status_request # rest
      \<and> ''connected'' \<notin> name ` set rest
      \<and> rest = mid @ [disconnected_event] \<and> ''disconnected'' \<notin> name ` set mid"
proof -
  let ?tr = "[FetchSettles 0 (Resolved ''up''), Abort, IntervalFires]"
  from channel_order[OF GET_status_channel, of ?tr]
  obtain rest where e: "emitted (run status_channel ?tr) = connected_event status_request # rest"
    and c: "''connected'' \<notin> name ` set rest"
    and d: "''disconnected'' \<notin> name ` set rest
            \<or> (\<exists>mid. rest = mid @ [disconnected_event] \<and> ''disconnected'' \<notin> name ` set mid)"
    by (elim exE conjE)
  have "emitted (run status_channel ?tr) =
          [connected_event status_request, status_event status_request ''up'' 0, disconnected_event]"
    by (simp add: model_defs sample_defs teardown_def)
  with e have "rest = [status_event status_request ''up'' 0, disconnected_event]" by simp
  then have "''disconnected'' \<in> name ` set rest" by simp
  with d obtain mid where m: "rest = mid @ [disconnected_event]"
    "''disconnected'' \<notin> name ` set mid"
    by (elim disjE exE conjE) simp_all
  show ?thesis by (intro exI[of _ rest] exI[of _ mid] conjI e c m)
qed

section \<open>A log subscription without its identifiers\<close>

text \<open>
  C5. A request of kind \<open>logs\<close> that lacks \<^verbatim>\<open>sessionId\<close> or \<^verbatim>\<open>commandId\<close> opens a
  channel that carries \<open>connected\<close> and then exactly one \<open>error\<close> event naming the missing
  precondition. Whatever inputs follow, nothing else is emitted (so no \<open>log\<close>,
  \<open>log-complete\<close> or \<open>log-error\<close>) except the \<open>disconnected\<close> event of a client
  disconnect, and the channel is closed exactly when the client has disconnected.
\<close>

theorem logs_missing_identifier:
  assumes "truthy (sandboxId r)" "eventType r = Some ''logs''"
    "\<not> (truthy (sessionId r) \<and> truthy (commandId r))"
  shows "\<exists>s0. GET r t = StreamResponse s0
           \<and> emitted (run s0 tr) =
                [connected_event r, missing_ids_event]
                @ (if Abort \<in> set tr then [disconnected_event] else [])
           \<and> (closed (run s0 tr) \<longleftrightarrow> Abort \<in> set tr)"
proof -
  let ?s0 = "(fresh r)\<lparr>now := t, emitted := [connected_event r, missing_ids_event]\<rparr>"
  have "quiet ?s0" "\<not> closed ?s0" "\<not> aborted ?s0" by (simp_all add: quiet_def fresh_def)
  from quiet_run[OF this, of tr] start_logs_missing[OF assms, of t]
  show ?thesis by (auto simp: fresh_def)
qed

theorem logs_missing_identifier_witness:
  "truthy (sandboxId bare_logs_request) \<and> eventType bare_logs_request = Some ''logs''
   \<and> \<not> (truthy (sessionId bare_logs_request) \<and> truthy (commandId bare_logs_request))
   \<and> (\<exists>s0. GET bare_logs_request 3 = StreamResponse s0
         \<and> emitted (run s0 [Elapse 5000, Chunk ''x'', StreamEnd]) =
              [connected_event bare_logs_request, missing_ids_event]
         \<and> \<not> closed (run s0 [Elapse 5000, Chunk ''x'', StreamEnd]))"
proof -
  have h: "truthy (sandboxId bare_logs_request)" "eventType bare_logs_request = Some ''logs''"
    "\<not> (truthy (sessionId bare_logs_request) \<and> truthy (commandId bare_logs_request))"
    by (simp_all add: bare_logs_request_def truthy_def)
  from logs_missing_identifier[OF h, of 3 "[Elapse 5000, Chunk ''x'', StreamEnd]"] h
  show ?thesis by simp
qed

section \<open>A log stream that runs to its end\<close>

text \<open>
  C9. A request of kind \<open>logs\<close> with both identifiers, whose upstream request is answered
  and whose upstream stream then delivers the chunks \<open>cs\<close> and ends (time may pass
  anywhere in between), yields on the channel \<open>connected\<close>, then one \<open>log\<close> event per
  chunk in arrival order, each with the identifiers, the chunk's text and a timestamp,
  then one \<open>log-complete\<close> event, and no \<open>log-error\<close>. After that no input other than
  a client disconnect makes the channel emit anything.
\<close>

theorem log_stream_complete:
  assumes "truthy (sandboxId r)" "eventType r = Some ''logs''"
    "truthy (sessionId r)" "truthy (commandId r)"
    "without_clock tr = FetchSettles 0 (Resolved d) # map Chunk cs @ [StreamEnd]"
  shows "\<exists>s0 ts. GET r t = StreamResponse s0 \<and> length ts = length cs
           \<and> emitted (run s0 tr) =
                connected_event r # map2 (log_event r) cs ts @ [log_complete_event r]
           \<and> (\<forall>tr'. Abort \<notin> set tr' \<longrightarrow> emitted (run s0 (tr @ tr')) = emitted (run s0 tr))"
proof -
  let ?s0 = "(fresh r)\<lparr>now := t, emitted := [connected_event r], pending := [(0, LogsRequest)],
                       next_id := Suc 0\<rparr>"
  have "pending ?s0 = [(0, LogsRequest)]" "\<not> closed ?s0" by (simp_all add: fresh_def)
  from establish_run[OF this assms(5)] obtain ts where ts: "length ts = length cs"
    and run: "emitted (run ?s0 tr) =
         emitted ?s0 @ map2 (log_event (req ?s0)) cs ts @ [log_complete_event (req ?s0)]"
      "upstream (run ?s0 tr) = Ended" "pending (run ?s0 tr) = []"
      "interval (run ?s0 tr) = interval ?s0" "\<not> closed (run ?s0 tr)"
      "aborted (run ?s0 tr) = aborted ?s0"
    by blast
  have q: "quiet (run ?s0 tr)" "\<not> closed (run ?s0 tr)" "\<not> aborted (run ?s0 tr)"
    using run by (simp_all add: quiet_def fresh_def)
  have "emitted (run ?s0 (tr @ tr')) = emitted (run ?s0 tr)" if "Abort \<notin> set tr'" for tr'
    using quiet_run[OF q, of tr'] that by (simp add: run_append)
  moreover have "emitted (run ?s0 tr) = connected_event r # map2 (log_event r) cs ts @ [log_complete_event r]"
    using run(1) by (simp add: fresh_def)
  ultimately show ?thesis using start_logs[OF assms(1-4), of t] ts by blast
qed

theorem log_stream_complete_witness:
  "without_clock [FetchSettles 0 (Resolved ''stream''), Chunk ''a'', Elapse 4, Chunk ''b'',
                  Chunk ''c'', StreamEnd]
     = FetchSettles 0 (Resolved ''stream'') # map Chunk [''a'', ''b'', ''c''] @ [StreamEnd]
   \<and> Abort \<notin> set [Chunk ''d'', IntervalFires, Elapse 9]
   \<and> (\<exists>s0 ts. GET logs_request 1 = StreamResponse s0 \<and> length ts = length [''a'', ''b'', ''c'']
         \<and> emitted (run s0 [FetchSettles 0 (Resolved ''stream''), Chunk ''a'', Elapse 4,
                             Chunk ''b'', Chunk ''c'', StreamEnd]) =
              connected_event logs_request
                # map2 (log_event logs_request) [''a'', ''b'', ''c''] ts
                @ [log_complete_event logs_request]
         \<and> emitted (run s0 ([FetchSettles 0 (Resolved ''stream''), Chunk ''a'', Elapse 4,
                              Chunk ''b'', Chunk ''c'', StreamEnd]
                             @ [Chunk ''d'', IntervalFires, Elapse 9])) =
              emitted (run s0 [FetchSettles 0 (Resolved ''stream''), Chunk ''a'', Elapse 4,
                               Chunk ''b'', Chunk ''c'', StreamEnd]))"
proof -
  let ?tr = "[FetchSettles 0 (Resolved ''stream''), Chunk ''a'', Elapse 4, Chunk ''b'',
              Chunk ''c'', StreamEnd]"
  let ?tr' = "[Chunk ''d'', IntervalFires, Elapse 9]"
  have h: "truthy (sandboxId logs_request)" "eventType logs_request = Some ''logs''"
    "truthy (sessionId logs_request)" "truthy (commandId logs_request)"
    by (simp_all add: logs_request_def truthy_def)
  have w: "without_clock ?tr
     = FetchSettles 0 (Resolved ''stream'') # map Chunk [''a'', ''b'', ''c''] @ [StreamEnd]"
    by (simp add: without_clock_def)
  have n: "Abort \<notin> set ?tr'" by simp
  from log_stream_complete[OF h w, of 1]
  obtain s0 ts where g: "GET logs_request 1 = StreamResponse s0"
    and l: "length ts = length [''a'', ''b'', ''c'']"
    and e: "emitted (run s0 ?tr) =
              connected_event logs_request
                # map2 (log_event logs_request) [''a'', ''b'', ''c''] ts
                @ [log_complete_event logs_request]"
    and f: "\<forall>tr'. Abort \<notin> set tr' \<longrightarrow> emitted (run s0 (?tr @ tr')) = emitted (run s0 ?tr)"
    by (elim exE conjE)
  note f' = f[rule_format, OF n]
  show ?thesis
    by (intro conjI w n, rule exI[of _ s0], rule exI[of _ ts], intro conjI g l e f')
qed

section \<open>A failed poll\<close>

text \<open>
  C4. On the open channel of a poll subscription, when the upstream request of a poll
  (the initial one or one started by a tick) fails, exactly one event is appended to the
  channel: an \<open>error\<close> event with the driver's summary and the message of the upstream
  failure. The schedule is running afterwards, and its next tick starts a new upstream
  request.
\<close>

theorem poll_failure_is_transient:
  assumes "GET r t = StreamResponse s0"
    and "s = run s0 tr"
    and "\<not> closed s"
    and "map_of (pending s) k = Some tk"
    and "tk = InitialPoll p \<or> tk = TickPoll p"
    and "s' = step s (FetchSettles k (Rejected e))"
  shows "emitted s' = emitted s @ [poll_failure_event p e]
       \<and> poll_failure_event p (ErrorObj m) =
            Event ''error'' [(''message'', JString (failure_summary p)), (''error'', JString m)]
       \<and> interval s' = Running p
       \<and> pending (step s' IntervalFires) =
            filter (\<lambda>q. fst q \<noteq> k) (pending s) @ [(next_id s, TickPoll p)]"
proof -
  let ?s = "s\<lparr>pending := filter (\<lambda>q. fst q \<noteq> k) (pending s)\<rparr>"
  have c: "consistent s" unfolding assms(2) by (rule consistent_run[OF consistent_start[OF assms(1)]])
  have s': "s' = resume tk (Rejected e) ?s" unfolding assms(6) by (rule step_settle[OF assms(4)])
  have e: "emitted s' = emitted s @ [poll_failure_event p e]"
    unfolding s' using resume_rejected[of ?s tk p e] assms(3,5) by simp
  have i: "interval s' = Running p"
  proof (cases tk)
    case (TickPoll p')
    with assms(5) have "tk = TickPoll p" by simp
    with tick_running[OF c assms(3)] assms(4) show ?thesis
      unfolding s' by (simp add: resume_interval)
  qed (use assms(3,5) in \<open>auto simp: s' resume_interval\<close>)
  have "pending (step s' IntervalFires) = pending s' @ [(next_id s', TickPoll p)]"
    by (simp add: step_tick[OF i])
  then have p: "pending (step s' IntervalFires) =
            filter (\<lambda>q. fst q \<noteq> k) (pending s) @ [(next_id s, TickPoll p)]"
    by (simp add: s' resume_frame)
  have "poll_failure_event p (ErrorObj m) =
            Event ''error'' [(''message'', JString (failure_summary p)), (''error'', JString m)]"
    by (simp add: poll_failure_event_def error_message_def)
  with e i p show ?thesis by simp
qed


theorem poll_failure_is_transient_witness:
  "\<exists>s0. GET status_request 0 = StreamResponse s0
     \<and> \<not> closed (run s0 [FetchSettles 0 (Resolved ''up''), IntervalFires])
     \<and> map_of (pending (run s0 [FetchSettles 0 (Resolved ''up''), IntervalFires])) 1
         = Some (TickPoll PollStatus)
     \<and> emitted (step (run s0 [FetchSettles 0 (Resolved ''up''), IntervalFires])
                  (FetchSettles 1 (Rejected (ErrorObj ''timeout''))))
         = emitted (run s0 [FetchSettles 0 (Resolved ''up''), IntervalFires])
           @ [poll_failure_event PollStatus (ErrorObj ''timeout'')]
     \<and> interval (step (run s0 [FetchSettles 0 (Resolved ''up''), IntervalFires])
                  (FetchSettles 1 (Rejected (ErrorObj ''timeout''))))
         = Running PollStatus"
proof -
  let ?s0 = "handleEventStream
               ((fresh status_request)\<lparr>now := 0, emitted := [connected_event status_request]\<rparr>)"
  let ?tr = "[FetchSettles 0 (Resolved ''up''), IntervalFires]"
  have g: "GET status_request 0 = StreamResponse ?s0"
    by (rule GET_opens) (simp add: status_request_def truthy_def)
  have a: "\<not> closed (run ?s0 ?tr)" by code_simp
  have b: "map_of (pending (run ?s0 ?tr)) 1 = Some (TickPoll PollStatus)" by code_simp
  have "TickPoll PollStatus = InitialPoll PollStatus \<or> TickPoll PollStatus = TickPoll PollStatus"
    by simp
  note w = poll_failure_is_transient[OF g refl a b this refl, of "ErrorObj ''timeout''" "''timeout''"]
  note c = w[THEN conjunct1]
  note d = w[THEN conjunct2, THEN conjunct2, THEN conjunct1]
  show ?thesis by (rule exI[of _ ?s0], intro conjI g a b c d)
qed

section \<open>Order of a poll driver's events\<close>

text \<open>
  C1, as the code has it. The interval callback starts a fetch on every tick, whether
  or not an earlier fetch is still in flight, so fetches overlap. Each event is
  appended to the channel when its own fetch settles and is stamped with the clock
  reading of that moment: with a clock that only moves forward the timestamps on the
  channel never decrease, but they need not increase strictly, and the results of
  overlapping fetches appear in the order in which the fetches settle, not in the order
  in which they were started.
\<close>

theorem poll_emission_order:
  assumes "GET r t = StreamResponse s0" and "poll_of r = Some p" and "s = run s0 tr"
  shows "sorted (timestamps (emitted s))
       \<and> (\<not> closed s \<and> map_of (pending s) k = Some (TickPoll p)
            \<longrightarrow> emitted (step s (FetchSettles k (Resolved d)))
                  = emitted s @ [poll_event p r d (now s)])
       \<and> (interval s = Running p
            \<longrightarrow> pending (step s IntervalFires) = pending s @ [(next_id s, TickPoll p)])"
proof -
  have "stamped s" unfolding assms(3) by (rule stamped_run[OF stamped_start[OF assms(1)]])
  then have a: "sorted (timestamps (emitted s))" by (simp add: stamped_def)
  have r: "req s = r" unfolding assms(3) by (simp add: req_run start_state(1)[OF assms(1)])
  have b: "emitted (step s (FetchSettles k (Resolved d))) = emitted s @ [poll_event p r d (now s)]"
    if "\<not> closed s" "map_of (pending s) k = Some (TickPoll p)"
    using resume_resolved[of "s\<lparr>pending := filter (\<lambda>q. fst q \<noteq> k) (pending s)\<rparr>" "TickPoll p" p d]
      that r by (simp add: step_settle[OF that(2)])
  have c: "pending (step s IntervalFires) = pending s @ [(next_id s, TickPoll p)]"
    if "interval s = Running p"
    by (simp add: step_tick[OF that])
  from a b c show ?thesis by blast
qed


theorem poll_emission_order_witness:
  "poll_of status_request = Some PollStatus
   \<and> sorted (timestamps (emitted (run status_channel
         [FetchSettles 0 (Resolved ''v0''), Elapse 5000, IntervalFires])))
   \<and> \<not> closed (run status_channel [FetchSettles 0 (Resolved ''v0''), Elapse 5000, IntervalFires])
   \<and> map_of (pending (run status_channel
         [FetchSettles 0 (Resolved ''v0''), Elapse 5000, IntervalFires])) 1
       = Some (TickPoll PollStatus)
   \<and> interval (run status_channel [FetchSettles 0 (Resolved ''v0''), Elapse 5000, IntervalFires])
       = Running PollStatus
   \<and> emitted (step (run status_channel
         [FetchSettles 0 (Resolved ''v0''), Elapse 5000, IntervalFires])
         (FetchSettles 1 (Resolved ''v1'')))
       = emitted (run status_channel [FetchSettles 0 (Resolved ''v0''), Elapse 5000, IntervalFires])
         @ [poll_event PollStatus status_request ''v1''
              (now (run status_channel
                 [FetchSettles 0 (Resolved ''v0''), Elapse 5000, IntervalFires]))]
   \<and> pending (step (run status_channel
         [FetchSettles 0 (Resolved ''v0''), Elapse 5000, IntervalFires]) IntervalFires)
       = pending (run status_channel [FetchSettles 0 (Resolved ''v0''), Elapse 5000, IntervalFires])
         @ [(next_id (run status_channel
               [FetchSettles 0 (Resolved ''v0''), Elapse 5000, IntervalFires]), TickPoll PollStatus)]"
proof -
  let ?s = "run status_channel [FetchSettles 0 (Resolved ''v0''), Elapse 5000, IntervalFires]"
  have p: "poll_of status_request = Some PollStatus"
    by (simp add: poll_of_def eventType_or_default_def status_request_def)
  have a: "\<not> closed ?s" by (simp add: model_defs sample_defs)
  have b: "map_of (pending ?s) 1 = Some (TickPoll PollStatus)" by (simp add: model_defs sample_defs)
  have c: "interval ?s = Running PollStatus" by (simp add: model_defs sample_defs)
  note w = poll_emission_order[OF GET_status_channel p refl,
      of "[FetchSettles 0 (Resolved ''v0''), Elapse 5000, IntervalFires]" 1 "''v1''"]
  note w1 = w[THEN conjunct1]
  note w2 = w[THEN conjunct2, THEN conjunct1, rule_format, OF conjI[OF a b]]
  note w3 = w[THEN conjunct2, THEN conjunct2, rule_format, OF c]
  show ?thesis by (intro conjI p w1 a b c w2 w3)
qed

text \<open>
  C1 as stated fails on the code. After the initial fetch, two ticks five seconds apart
  leave two fetches in flight at once; when the later one settles first, its result is
  emitted before the earlier one's, and two events settled in the same millisecond bear
  the same timestamp.
\<close>

theorem overlapping_polls:
  "GET status_request 0 = StreamResponse status_channel
   \<and> pending (run status_channel
        [FetchSettles 0 (Resolved ''v0''), Elapse 5000, IntervalFires, Elapse 5000, IntervalFires])
      = [(1, TickPoll PollStatus), (2, TickPoll PollStatus)]
   \<and> emitted (run status_channel
        [FetchSettles 0 (Resolved ''v0''), Elapse 5000, IntervalFires, Elapse 5000, IntervalFires,
         Elapse 1, FetchSettles 2 (Resolved ''v2''), FetchSettles 1 (Resolved ''v1'')])
      = [connected_event status_request, status_event status_request ''v0'' 0,
         status_event status_request ''v2'' 10001, status_event status_request ''v1'' 10001]
   \<and> \<not> sorted_wrt (<) (timestamps (emitted (run status_channel
        [FetchSettles 0 (Resolved ''v0''), Elapse 5000, IntervalFires, Elapse 5000, IntervalFires,
         Elapse 1, FetchSettles 2 (Resolved ''v2''), FetchSettles 1 (Resolved ''v1'')])))"
proof (intro conjI)
  show "GET status_request 0 = StreamResponse status_channel" by (rule GET_status_channel)
qed (simp_all add: model_defs sample_defs timestamps_def timestamp_of_def List.map_filter_def)

section \<open>The client disconnects\<close>

text \<open>
  C2, as the code has it. On the first abort of the request, with the channel open, the
  listener enqueues the \<open>disconnected\<close> event and then closes the controller: the
  event is on the channel, the channel is closed, nothing is raised. \<^verbatim>\<open>sendEvent\<close> has
  no guard of its own, so an emit on a channel that is already closed is not a no-op
  that succeeds: nothing is enqueued and \<^verbatim>\<open>enqueue\<close> raises a \<^verbatim>\<open>TypeError\<close>.
\<close>

theorem disconnect_emits_then_closes:
  "(\<not> closed s \<and> \<not> aborted s \<longrightarrow>
      emitted (step s Abort) = emitted s @ [disconnected_event]
      \<and> closed (step s Abort) \<and> faults (step s Abort) = faults s)
   \<and> (closed s \<longrightarrow> sendEvent ev s = Inl controller_closed_error)"
  by (simp add: abort_open sendEvent_def)

theorem disconnect_emits_then_closes_witness:
  "\<not> closed status_channel \<and> \<not> aborted status_channel
   \<and> emitted (step status_channel Abort) = emitted status_channel @ [disconnected_event]
   \<and> closed (step status_channel Abort)
   \<and> faults (step status_channel Abort) = faults status_channel
   \<and> sendEvent (status_event status_request ''up'' 3) (step status_channel Abort)
       = Inl controller_closed_error"
proof -
  have o: "\<not> closed status_channel \<and> \<not> aborted status_channel"
    by (simp add: model_defs sample_defs)
  note w = disconnect_emits_then_closes[of status_channel, THEN conjunct1, rule_format, OF o]
  have c: "closed (step status_channel Abort)" using w by simp
  note v = disconnect_emits_then_closes[of "step status_channel Abort"
      "status_event status_request ''up'' 3", THEN conjunct2, rule_format, OF c]
  show ?thesis using o w v by simp
qed

text \<open>
  C2 as stated fails on the code: once the abort listener has closed the channel, an
  emit raises. Here the client disconnects while the first status fetch is in flight;
  when the fetch settles, its emit and the two emits of the \<^verbatim>\<open>catch\<close> blocks all raise,
  and the last one escapes as an unhandled rejection.
\<close>

theorem emit_after_close_raises:
  "closed (run status_channel [Abort])
   \<and> sendEvent disconnected_event (run status_channel [Abort]) = Inl controller_closed_error
   \<and> faults (run status_channel [Abort]) = []
   \<and> faults (run status_channel [Abort, FetchSettles 0 (Resolved ''up'')])
       = [controller_closed_error]
   \<and> emitted (run status_channel [Abort, FetchSettles 0 (Resolved ''up'')])
       = emitted (run status_channel [Abort])"
  by (simp add: model_defs sample_defs teardown_def resume.simps)

section \<open>Teardown, once and again\<close>



section \<open>The log driver after teardown\<close>

text \<open>
  C3. The poll drivers hand their cleanup to the supervisor and the teardown clears
  their interval; \<^verbatim>\<open>streamCommandLogs\<close> returns no cleanup. So on a log subscription
  nothing is recorded for the teardown to call: after the client has disconnected and
  the channel is closed, the upstream stream is still flowing and its \<^verbatim>\<open>data\<close>
  listener still runs on every chunk, where its emit raises. On the same inputs the
  interval of a status subscription is cleared.
\<close>

theorem log_driver_survives_teardown:
  "GET logs_request 0 = StreamResponse logs_channel
   \<and> cleanupFunction (run logs_channel [FetchSettles 0 (Resolved ''stream'')]) = None
   \<and> closed (run logs_channel [FetchSettles 0 (Resolved ''stream''), Abort])
   \<and> upstream (run logs_channel [FetchSettles 0 (Resolved ''stream''), Abort]) = Flowing
   \<and> faults (run logs_channel [FetchSettles 0 (Resolved ''stream''), Abort]) = []
   \<and> faults (run logs_channel [FetchSettles 0 (Resolved ''stream''), Abort, Chunk ''late''])
       = [controller_closed_error]
   \<and> interval (run status_channel [FetchSettles 0 (Resolved ''up'')]) = Running PollStatus
   \<and> interval (run status_channel [FetchSettles 0 (Resolved ''up''), Abort]) = Cleared"
proof (intro conjI)
  show "GET logs_request 0 = StreamResponse logs_channel" by (rule GET_logs_channel)
qed (simp_all add: model_defs sample_defs teardown_def resume.simps)

section \<open>The tool that hands out the URL\<close>




end
